theory Spec2Isabelle
  imports Main
begin

section \<open>Data model of \<open>client/messenger_chat.py\<close>\<close>

text \<open>
  The controller class \<open>MessengerChat\<close> keeps the chat log in a Python list object that is
  shared by reference between the interactive thread and the analysis threads, so the model
  has an explicit store of list objects: an address is a natural number, \<open>heap\<close> maps every
  address to the contents of the list object that lives there, and \<open>next_addr\<close> is the
  first address that has not been handed out yet.
\<close>

type_synonym addr = nat

text \<open>\<open>Chat(sender=..., message=...)\<close>, as built in \<open>handle_message\<close>.\<close>

record Chat =
  sender :: string
  message :: string

text \<open>
  Modelled from the spec: the declaration of \<open>SentimentResponse\<close> lives in the module
  \<open>client\<close>; the spec's AnalysisResult is the record \<open>{sentiment, explanation,
  alert_needed: boolean}\<close>, and these are the three attributes \<open>check_analysis\<close> reads.
  An instance is an ordinary object, so it is truthy; the falsy value \<open>None\<close> is the
  \<open>None\<close> of the option type.
\<close>

record SentimentResponse =
  sentiment :: string
  explanation :: string
  alert_needed :: bool

text \<open>
  Modelled from the spec: the declaration of \<open>MonitoringAlert\<close> lives in the module
  \<open>parent_monitor\<close>; the fields are the keyword arguments of the constructor call in
  \<open>check_analysis\<close> (the three copied from the response carry the prefix \<open>a_\<close>).
\<close>

record MonitoringAlert =
  timestamp :: string
  child_name :: string
  a_sentiment :: string
  a_explanation :: string
  a_alert_needed :: bool
  message_range :: string

text \<open>
  What the coroutine \<open>client.analyze_chats(...)\<close> does when \<open>AsyncTkThread.run\<close> waits
  for it: it raises, it exceeds the 30 second timeout, or it returns a value
  (a response or \<open>None\<close>).
\<close>

datatype coro_outcome = Raises | TimesOut | Returns "SentimentResponse option"

text \<open>
  The closure \<open>analyze_wrapper\<close> runs on a thread of its own, so each of its statements
  is a step that other threads may interleave with. The program counter of such a thread:
  \<^item> \<open>T_Spawned\<close>: started, nothing executed yet;
  \<^item> \<open>T_Window w\<close>: \<open>analysis_window\<close> is bound to the list object at \<open>w\<close> and the
    analyzer call is in flight;
  \<^item> \<open>T_Results r\<close>: \<open>results\<close> is bound, \<open>if results:\<close> comes next;
  \<^item> \<open>T_Pushed\<close>: \<open>message_queue.put\<close> is done;
  \<^item> \<open>T_Computed v\<close>: the right-hand side \<open>len(self.current_chat) - 1\<close> is evaluated to
    \<open>v\<close>, the store into \<open>last_analyzed_index\<close> comes next (the call of \<open>len\<close> and the
    store are separate instructions, with no lock around them);
  \<^item> \<open>T_Indexed\<close>: \<open>last_analyzed_index\<close> is assigned;
  \<^item> \<open>T_Done\<close>: the thread has finished.
\<close>

datatype thread_pc =
    T_Spawned
  | T_Window addr
  | T_Results "SentimentResponse option"
  | T_Pushed
  | T_Computed int
  | T_Indexed
  | T_Done

record analysis_thread =
  t_sender :: string
  pc :: thread_pc

text \<open>
  The attributes of \<open>MessengerChat\<close> set in \<open>__init__\<close> (the three windows are GUI
  objects and are left out), the \<open>running\<close> flag of its \<open>AsyncTkThread\<close>, the store and
  the analysis threads started so far.
\<close>

record MessengerChat =
  heap :: "addr \<Rightarrow> Chat list"
  next_addr :: addr
  async_running :: bool
  message_queue :: "(string \<times> SentimentResponse) list"
  alert_queue :: "MonitoringAlert list"
  current_chat :: addr
  running :: bool
  window_size :: int
  last_analyzed_index :: int
  messages_since_analysis :: int
  threads :: "analysis_thread list"

section \<open>Operations\<close>

text \<open>A list display or a slice creates a new list object.\<close>

definition alloc :: "Chat list \<Rightarrow> MessengerChat \<Rightarrow> addr \<times> MessengerChat" where
  "alloc xs s =
     (next_addr s, s\<lparr>heap := (heap s)(next_addr s := xs), next_addr := Suc (next_addr s)\<rparr>)"

text \<open>The contents of \<open>self.current_chat\<close>.\<close>

definition chat_list :: "MessengerChat \<Rightarrow> Chat list" where
  "chat_list s = heap s (current_chat s)"

text \<open>\<open>MessengerChat.__init__\<close>: the empty log is the list object at address 0.\<close>

definition init :: MessengerChat where
  "init = \<lparr>heap = (\<lambda>_. []), next_addr = 1, async_running = True,
           message_queue = [], alert_queue = [], current_chat = 0, running = True,
           window_size = 3, last_analyzed_index = - 1, messages_since_analysis = 0,
           threads = []\<rparr>"

text \<open>Python's \<open>xs[i:]\<close>: a negative start counts from the end and is clamped at 0.\<close>

definition slice_from :: "int \<Rightarrow> 'a list \<Rightarrow> 'a list" where
  "slice_from i xs =
     (if i < 0 then drop (nat (max 0 (int (length xs) + i))) xs else drop (nat i) xs)"

text \<open>
  \<open>get_analysis_window\<close>: the short branch returns the reference \<open>self.current_chat\<close>
  itself, the long branch returns the new list object made by the slice.
\<close>

definition get_analysis_window :: "MessengerChat \<Rightarrow> addr \<times> MessengerChat" where
  "get_analysis_window s =
     (if int (length (chat_list s)) \<le> window_size s then (current_chat s, s)
      else alloc (slice_from (- window_size s) (chat_list s)) s)"

text \<open>\<open>should_analyze\<close>, as a method on the state: the result and the state it leaves.\<close>

definition should_analyze :: "MessengerChat \<Rightarrow> bool \<times> MessengerChat" where
  "should_analyze s =
     (let total_messages = int (length (chat_list s)) in
      if total_messages = window_size s \<and> last_analyzed_index s = - 1 then (True, s)
      else if messages_since_analysis s \<ge> window_size s then (True, s)
      else (False, s))"

text \<open>The first two statements of \<open>handle_message\<close>: append in place, count.\<close>

definition append_chat :: "string \<Rightarrow> string \<Rightarrow> MessengerChat \<Rightarrow> MessengerChat" where
  "append_chat sndr msg s =
     (let s1 = s\<lparr>heap := (heap s)(current_chat s :=
                  heap s (current_chat s) @ [\<lparr>sender = sndr, message = msg\<rparr>])\<rparr>
      in s1\<lparr>messages_since_analysis := messages_since_analysis s1 + 1\<rparr>)"

text \<open>
  The last statement of \<open>handle_message\<close> (under the comment "Analyze if needed"): a
  thread running \<open>analyze_wrapper\<close> is started when \<open>should_analyze\<close> says so.
\<close>

definition analyze_if_needed :: "string \<Rightarrow> MessengerChat \<Rightarrow> MessengerChat" where
  "analyze_if_needed sndr s =
     (case should_analyze s of
        (True, s') \<Rightarrow> s'\<lparr>threads := threads s' @ [\<lparr>t_sender = sndr, pc = T_Spawned\<rparr>]\<rparr>
      | (False, s') \<Rightarrow> s')"

text \<open>
  \<open>handle_message\<close> when no analysis thread runs while it executes. Between the append
  and the test lie the calls that display the message in the other chat window and the
  logging call (GUI work, left out); an analysis thread that runs during them is the
  business of the interleavings below.
\<close>

definition handle_message :: "string \<Rightarrow> string \<Rightarrow> MessengerChat \<Rightarrow> MessengerChat" where
  "handle_message sndr msg s = analyze_if_needed sndr (append_chat sndr msg s)"

text \<open>
  \<open>AsyncTkThread.run\<close>: \<open>None\<close> when the handler is stopped, and \<open>None\<close> when
  \<open>future.result(timeout=30)\<close> raises (the coroutine's exception or the timeout).
\<close>

definition async_run :: "bool \<Rightarrow> coro_outcome \<Rightarrow> SentimentResponse option" where
  "async_run is_running out =
     (if \<not> is_running then None
      else case out of Raises \<Rightarrow> None | TimesOut \<Rightarrow> None | Returns r \<Rightarrow> r)"

definition set_pc :: "nat \<Rightarrow> thread_pc \<Rightarrow> MessengerChat \<Rightarrow> MessengerChat" where
  "set_pc i p s = s\<lparr>threads := (threads s)[i := (threads s ! i)\<lparr>pc := p\<rparr>]\<rparr>"

text \<open>
  One statement of \<open>analyze_wrapper\<close> on thread \<open>i\<close>; \<open>out\<close> is what the analyzer does
  and matters only for the step that waits for it.
\<close>

definition analyze_wrapper :: "nat \<Rightarrow> coro_outcome \<Rightarrow> MessengerChat \<Rightarrow> MessengerChat" where
  "analyze_wrapper i out s =
     (if length (threads s) \<le> i then s
      else case pc (threads s ! i) of
        T_Spawned \<Rightarrow> (case get_analysis_window s of (w, s') \<Rightarrow> set_pc i (T_Window w) s')
      | T_Window w \<Rightarrow> set_pc i (T_Results (async_run (async_running s) out)) s
      | T_Results None \<Rightarrow> set_pc i T_Done s
      | T_Results (Some r) \<Rightarrow>
          set_pc i T_Pushed (s\<lparr>message_queue := message_queue s @ [(t_sender (threads s ! i), r)]\<rparr>)
      | T_Pushed \<Rightarrow> set_pc i (T_Computed (int (length (chat_list s)) - 1)) s
      | T_Computed v \<Rightarrow> set_pc i T_Indexed (s\<lparr>last_analyzed_index := v\<rparr>)
      | T_Indexed \<Rightarrow> set_pc i T_Done (s\<lparr>messages_since_analysis := 0\<rparr>)
      | T_Done \<Rightarrow> s)"

text \<open>The loop \<open>while not q.empty(): q.get_nowait()\<close>.\<close>

fun drain :: "'a list \<Rightarrow> 'a list" where
  "drain [] = []"
| "drain (x # q) = drain q"

text \<open>
  \<open>reset_chat\<close>: \<open>self.current_chat = []\<close> binds a new list object; the two
  \<open>clear_chat\<close> calls are GUI work.
\<close>

definition reset_chat :: "MessengerChat \<Rightarrow> MessengerChat" where
  "reset_chat s =
     (case alloc [] s of (a, s0) \<Rightarrow>
        let s1 = s0\<lparr>current_chat := a\<rparr>;
            s2 = s1\<lparr>last_analyzed_index := - 1\<rparr>;
            s3 = s2\<lparr>messages_since_analysis := 0\<rparr>;
            s4 = s3\<lparr>message_queue := drain (message_queue s3)\<rparr>
        in s4\<lparr>alert_queue := drain (alert_queue s4)\<rparr>)"

text \<open>Python's \<open>str\<close> of an integer, as the f-string uses it.\<close>

definition digit_char :: "nat \<Rightarrow> char" where
  "digit_char d = ''0123456789'' ! d"

fun str_nat :: "nat \<Rightarrow> string" where
  "str_nat n = (if n < 10 then [digit_char n] else str_nat (n div 10) @ [digit_char (n mod 10)])"

definition str_int :: "int \<Rightarrow> string" where
  "str_int i = (if i < 0 then CHR ''-'' # str_nat (nat (- i)) else str_nat (nat i))"

text \<open>The f-string \<open>"Messages {start_msg} - {end_msg} (Window of {self.window_size})"\<close>.\<close>

definition format_range :: "int \<Rightarrow> int \<Rightarrow> int \<Rightarrow> string" where
  "format_range start_msg end_msg ws =
     ''Messages '' @ str_int start_msg @ '' - '' @ str_int end_msg @
     '' (Window of '' @ str_int ws @ '')''"

text \<open>The two bounds \<open>check_analysis\<close> computes from the log as it is when it runs.\<close>

definition start_msg :: "MessengerChat \<Rightarrow> int" where
  "start_msg s =
     (if int (length (chat_list s)) \<le> window_size s then 1
      else int (length (chat_list s)) - window_size s + 1)"

definition end_msg :: "MessengerChat \<Rightarrow> int" where
  "end_msg s = int (length (chat_list s))"

text \<open>
  One tick of \<open>check_analysis\<close>; \<open>now\<close> is \<open>datetime.now().strftime("%H:%M:%S")\<close>.
  \<open>get_nowait\<close> on the empty queue raises \<open>queue.Empty\<close>, which is caught. Only truthy
  results are ever put on the queue, so \<open>if results:\<close> holds for a popped item.
\<close>

definition check_analysis :: "string \<Rightarrow> MessengerChat \<Rightarrow> MessengerChat" where
  "check_analysis now s =
     (case message_queue s of
        [] \<Rightarrow> s
      | (sndr, results) # q \<Rightarrow>
          let s1 = s\<lparr>message_queue := q\<rparr>;
              alert = \<lparr>timestamp = now, child_name = sndr,
                       a_sentiment = sentiment results,
                       a_explanation = explanation results,
                       a_alert_needed = alert_needed results,
                       message_range = format_range (start_msg s1) (end_msg s1) (window_size s1)\<rparr>
          in s1\<lparr>alert_queue := alert_queue s1 @ [alert]\<rparr>)"

section \<open>Interleavings\<close>

text \<open>
  What can happen next: a chat window delivers a message, the monitor window asks for a
  reset, the polling tick fires, or an analysis thread executes its next statement.
  \<open>HandleMessage\<close> is a message handled with no analysis thread running meanwhile;
  \<open>AppendChat\<close> followed later by \<open>AnalyzeIfNeeded\<close> is a message during whose handling
  analysis threads execute statements between the append and the trigger test.
\<close>

datatype event =
    HandleMessage string string
  | AppendChat string string
  | AnalyzeIfNeeded string
  | ResetChat
  | CheckAnalysis string
  | ThreadStep nat coro_outcome

fun step :: "event \<Rightarrow> MessengerChat \<Rightarrow> MessengerChat" where
  "step (HandleMessage sndr msg) s = handle_message sndr msg s"
| "step (AppendChat sndr msg) s = append_chat sndr msg s"
| "step (AnalyzeIfNeeded sndr) s = analyze_if_needed sndr s"
| "step ResetChat s = reset_chat s"
| "step (CheckAnalysis now) s = check_analysis now s"
| "step (ThreadStep i out) s = analyze_wrapper i out s"

definition exec :: "event list \<Rightarrow> MessengerChat \<Rightarrow> MessengerChat" where
  "exec es s = foldl (\<lambda>s e. step e s) s es"

text \<open>
  Addresses are handed out in increasing order, so the log of a reachable state lives below
  \<open>next_addr\<close>.
\<close>

definition store_ok :: "MessengerChat \<Rightarrow> bool" where
  "store_ok s = (current_chat s < next_addr s)"

text \<open>
  A dispatch that executes all of \<open>analyze_wrapper\<close> with nothing in between: six steps
  take a thread from its start to its end on the longest path.
\<close>

definition complete_dispatch :: "nat \<Rightarrow> coro_outcome \<Rightarrow> MessengerChat \<Rightarrow> MessengerChat" where
  "complete_dispatch i out s = exec (replicate 6 (ThreadStep i out)) s"

text \<open>
  A run in which every dispatch that a message starts completes, with the given analyzer
  outcome, before the next message is handled. The result lists what \<open>should_analyze\<close>
  returned for each message.
\<close>

fun deliver :: "(string \<times> string \<times> coro_outcome) list \<Rightarrow> MessengerChat \<Rightarrow> bool list \<times> MessengerChat" where
  "deliver [] s = ([], s)"
| "deliver ((a, m, out) # xs) s =
     (let fired = fst (should_analyze (append_chat a m s));
          s1 = handle_message a m s;
          s2 = (if fired then complete_dispatch (length (threads s)) out s1 else s1)
      in case deliver xs s2 of (bs, s') \<Rightarrow> (fired # bs, s'))"

text \<open>Messages handled one after the other, and the log entries they make.\<close>

definition message_events :: "(string \<times> string) list \<Rightarrow> event list" where
  "message_events ms = map (\<lambda>(a, m). HandleMessage a m) ms"

definition chats_of :: "(string \<times> string) list \<Rightarrow> Chat list" where
  "chats_of ms = map (\<lambda>(a, m). \<lparr>sender = a, message = m\<rparr>) ms"

text \<open>A sample conversation and a sample analyzer response, for concrete runs.\<close>

definition three_messages :: "event list" where
  "three_messages = [HandleMessage ''Alice'' ''1'', HandleMessage ''Bob'' ''2'', HandleMessage ''Alice'' ''3'']"

definition calm :: SentimentResponse where
  "calm = \<lparr>sentiment = ''calm'', explanation = ''small talk'', alert_needed = False\<rparr>"

definition six_messages :: "(string \<times> string \<times> coro_outcome) list" where
  "six_messages = [(''Alice'', ''1'', Returns (Some calm)), (''Bob'', ''2'', Returns (Some calm)),
     (''Alice'', ''3'', Returns (Some calm)), (''Bob'', ''4'', Returns (Some calm)),
     (''Alice'', ''5'', Returns (Some calm)), (''Bob'', ''6'', Returns (Some calm))]"

definition failing_messages :: "(string \<times> string \<times> coro_outcome) list" where
  "failing_messages = [(''Alice'', ''1'', Returns (Some calm)), (''Bob'', ''2'', Returns (Some calm)),
     (''Alice'', ''3'', TimesOut), (''Bob'', ''4'', Returns (Some calm)),
     (''Alice'', ''5'', Returns (Some calm))]"

section \<open>Auxiliary facts\<close>

lemma drain_empty: "drain q = []"
  by (induction q) simp_all

lemmas run_simps = exec_def handle_message_def analyze_if_needed_def append_chat_def should_analyze_def chat_list_def
  analyze_wrapper_def set_pc_def get_analysis_window_def alloc_def async_run_def init_def
  reset_chat_def check_analysis_def Let_def slice_from_def three_messages_def drain_empty
  start_msg_def end_msg_def

lemma exec_Nil: "exec [] s = s"
  by (simp add: exec_def)

lemma exec_Cons: "exec (e # es) s = exec es (step e s)"
  by (simp add: exec_def)

lemma exec_append: "exec (es @ fs) s = exec fs (exec es s)"
  by (simp add: exec_def)

lemma threads_get_analysis_window:
  "get_analysis_window s = (w, s') \<Longrightarrow> threads s' = threads s"
  by (auto simp: get_analysis_window_def alloc_def split: if_splits)

lemma threads_handle_message:
  "threads (handle_message a m s) = threads s \<or>
   threads (handle_message a m s) = threads s @ [\<lparr>t_sender = a, pc = T_Spawned\<rparr>]"
  by (simp add: handle_message_def analyze_if_needed_def should_analyze_def append_chat_def Let_def)

lemma threads_reset_chat: "threads (reset_chat s) = threads s"
  by (simp add: reset_chat_def alloc_def Let_def)

lemma threads_check_analysis: "threads (check_analysis now s) = threads s"
  by (simp add: check_analysis_def Let_def split: list.splits prod.splits)

lemma threads_analyze_wrapper_other:
  assumes "i < length (threads s)" and "j \<noteq> i"
  shows "i < length (threads (analyze_wrapper j out s))
       \<and> threads (analyze_wrapper j out s) ! i = threads s ! i"
proof (cases "length (threads s) \<le> j")
  case True
  with assms show ?thesis by (simp add: analyze_wrapper_def)
next
  case False
  obtain w s' where g: "get_analysis_window s = (w, s')" by (cases "get_analysis_window s")
  note th = threads_get_analysis_window [OF g]
  from False assms g th show ?thesis
    by (cases "pc (threads s ! j)")
       (auto simp: analyze_wrapper_def set_pc_def split: option.splits)
qed

lemma step_keeps_thread:
  assumes "i < length (threads s)" and "\<forall>out. e \<noteq> ThreadStep i out"
  shows "i < length (threads (step e s)) \<and> threads (step e s) ! i = threads s ! i"
proof (cases e)
  case (HandleMessage a m)
  with assms(1) threads_handle_message [of a m s] show ?thesis
    by (auto simp: nth_append)
next
  case (AppendChat a m)
  with assms(1) show ?thesis by (simp add: append_chat_def Let_def)
next
  case (AnalyzeIfNeeded a)
  with assms(1) show ?thesis
    by (auto simp: analyze_if_needed_def should_analyze_def Let_def nth_append)
next
  case ResetChat
  with assms(1) show ?thesis by (simp add: threads_reset_chat)
next
  case (CheckAnalysis now)
  with assms(1) show ?thesis by (simp add: threads_check_analysis)
next
  case (ThreadStep j out)
  with assms(2) have "j \<noteq> i" by auto
  with assms(1) ThreadStep show ?thesis
    by (simp add: threads_analyze_wrapper_other)
qed

lemma exec_keeps_thread:
  assumes "i < length (threads s)" and "\<forall>e \<in> set es. \<forall>out. e \<noteq> ThreadStep i out"
  shows "i < length (threads (exec es s)) \<and> threads (exec es s) ! i = threads s ! i"
  using assms
proof (induction es arbitrary: s)
  case Nil
  then show ?case by (simp add: exec_Nil)
next
  case (Cons e es)
  from Cons.prems have k: "i < length (threads (step e s)) \<and> threads (step e s) ! i = threads s ! i"
    by (intro step_keeps_thread) auto
  from Cons.prems have "\<forall>e \<in> set es. \<forall>out. e \<noteq> ThreadStep i out" by simp
  with k Cons.IH [of "step e s"] show ?case by (simp add: exec_Cons)
qed

lemma slice_from_neg:
  "0 < k \<Longrightarrow> k < int (length xs) \<Longrightarrow> slice_from (- k) xs = drop (length xs - nat k) xs"
  by (simp add: slice_from_def nat_diff_distrib' max_def)

lemma chat_list_handle_message:
  "chat_list (handle_message a m s) = chat_list s @ [\<lparr>sender = a, message = m\<rparr>]"
  by (simp add: handle_message_def analyze_if_needed_def should_analyze_def append_chat_def chat_list_def Let_def)

lemma analyze_wrapper_Window:
  "i < length (threads s) \<Longrightarrow> pc (threads s ! i) = T_Window w \<Longrightarrow>
   analyze_wrapper i out s = set_pc i (T_Results (async_run (async_running s) out)) s"
  by (simp add: analyze_wrapper_def)

lemma analyze_wrapper_Results_Some:
  "i < length (threads s) \<Longrightarrow> pc (threads s ! i) = T_Results (Some r) \<Longrightarrow>
   analyze_wrapper i out s =
     set_pc i T_Pushed (s\<lparr>message_queue := message_queue s @ [(t_sender (threads s ! i), r)]\<rparr>)"
  by (simp add: analyze_wrapper_def)

lemma analyze_wrapper_Pushed:
  "i < length (threads s) \<Longrightarrow> pc (threads s ! i) = T_Pushed \<Longrightarrow>
   analyze_wrapper i out s = set_pc i (T_Computed (int (length (chat_list s)) - 1)) s"
  by (simp add: analyze_wrapper_def)

lemma analyze_wrapper_Computed:
  "i < length (threads s) \<Longrightarrow> pc (threads s ! i) = T_Computed v \<Longrightarrow>
   analyze_wrapper i out s = set_pc i T_Indexed (s\<lparr>last_analyzed_index := v\<rparr>)"
  by (simp add: analyze_wrapper_def)

lemma analyze_wrapper_Indexed:
  "i < length (threads s) \<Longrightarrow> pc (threads s ! i) = T_Indexed \<Longrightarrow>
   analyze_wrapper i out s = set_pc i T_Done (s\<lparr>messages_since_analysis := 0\<rparr>)"
  by (simp add: analyze_wrapper_def)

lemma reset_chat_fields:
  "chat_list (reset_chat s) = []"
  "last_analyzed_index (reset_chat s) = - 1"
  "messages_since_analysis (reset_chat s) = 0"
  "message_queue (reset_chat s) = []"
  "alert_queue (reset_chat s) = []"
  "window_size (reset_chat s) = window_size s"
  by (simp_all add: reset_chat_def alloc_def chat_list_def drain_empty Let_def)

lemma messages_since_analysis_handle_message:
  "messages_since_analysis (handle_message a m s) = messages_since_analysis s + 1"
  by (simp add: handle_message_def analyze_if_needed_def should_analyze_def append_chat_def Let_def)




lemma messages_since_analysis_get_analysis_window:
  "messages_since_analysis (snd (get_analysis_window s)) = messages_since_analysis s"
  by (simp add: get_analysis_window_def alloc_def)

lemma messages_since_analysis_analyze_wrapper:
  "messages_since_analysis (analyze_wrapper i out s) =
     (if i < length (threads s) \<and> pc (threads s ! i) = T_Indexed then 0
      else messages_since_analysis s)"
proof (cases "i < length (threads s)")
  case False
  then show ?thesis by (simp add: analyze_wrapper_def)
next
  case True
  with messages_since_analysis_get_analysis_window [of s] show ?thesis
    by (cases "pc (threads s ! i)")
       (auto simp: analyze_wrapper_def set_pc_def split: option.splits prod.splits)
qed






lemma get_analysis_window_frame:
  assumes "store_ok s" and "get_analysis_window s = (w, s')"
  shows "chat_list s' = chat_list s" "threads s' = threads s"
    "messages_since_analysis s' = messages_since_analysis s"
    "last_analyzed_index s' = last_analyzed_index s"
    "window_size s' = window_size s" "async_running s' = async_running s"
    "message_queue s' = message_queue s" "alert_queue s' = alert_queue s"
    "current_chat s' = current_chat s" "store_ok s'"
  using assms
  by (auto simp: get_analysis_window_def alloc_def store_ok_def chat_list_def split: if_splits)

text \<open>What a thread has done when it ends, by the analyzer's outcome.\<close>

lemma complete_dispatch_success:
  assumes "i < length (threads s)" and "pc (threads s ! i) = T_Spawned"
    and "async_run (async_running s) out = Some r" and "store_ok s"
  shows "chat_list (complete_dispatch i out s) = chat_list s"
    and "messages_since_analysis (complete_dispatch i out s) = 0"
    and "last_analyzed_index (complete_dispatch i out s) = int (length (chat_list s)) - 1"
    and "window_size (complete_dispatch i out s) = window_size s"
    and "async_running (complete_dispatch i out s) = async_running s"
    and "store_ok (complete_dispatch i out s)"
    and "message_queue (complete_dispatch i out s) = message_queue s @ [(t_sender (threads s ! i), r)]"
proof -
  obtain w s' where g: "get_analysis_window s = (w, s')" by (cases "get_analysis_window s")
  note f = get_analysis_window_frame [OF assms(4) g]
  define s1 where "s1 = analyze_wrapper i out s"
  define s2 where "s2 = analyze_wrapper i out s1"
  define s3 where "s3 = analyze_wrapper i out s2"
  define s4 where "s4 = analyze_wrapper i out s3"
  define s5 where "s5 = analyze_wrapper i out s4"
  define s6 where "s6 = analyze_wrapper i out s5"
  have c: "complete_dispatch i out s = s6"
    by (simp add: complete_dispatch_def exec_def eval_nat_numeral
          s1_def s2_def s3_def s4_def s5_def s6_def)
  from assms g have e1: "s1 = set_pc i (T_Window w) s'"
    by (simp add: s1_def analyze_wrapper_def)
  with assms f have p1: "i < length (threads s1)" "pc (threads s1 ! i) = T_Window w"
    "t_sender (threads s1 ! i) = t_sender (threads s ! i)"
    by (simp_all add: set_pc_def)
  from e1 assms f have a1: "async_run (async_running s1) out = Some r" by (simp add: set_pc_def)
  from p1 a1 have e2: "s2 = set_pc i (T_Results (Some r)) s1"
    by (simp add: s2_def analyze_wrapper_Window)
  with p1 have p2: "i < length (threads s2)" "pc (threads s2 ! i) = T_Results (Some r)"
    "t_sender (threads s2 ! i) = t_sender (threads s ! i)"
    by (simp_all add: set_pc_def)
  from p2 have e3: "s3 = set_pc i T_Pushed
      (s2\<lparr>message_queue := message_queue s2 @ [(t_sender (threads s ! i), r)]\<rparr>)"
    by (simp add: s3_def analyze_wrapper_Results_Some)
  with p2 have p3: "i < length (threads s3)" "pc (threads s3 ! i) = T_Pushed"
    by (simp_all add: set_pc_def)
  from p3 have e4: "s4 = set_pc i (T_Computed (int (length (chat_list s3)) - 1)) s3"
    by (simp add: s4_def analyze_wrapper_Pushed)
  with p3 have p4: "i < length (threads s4)"
    "pc (threads s4 ! i) = T_Computed (int (length (chat_list s3)) - 1)"
    by (simp_all add: set_pc_def)
  from p4 have e5: "s5 = set_pc i T_Indexed
      (s4\<lparr>last_analyzed_index := int (length (chat_list s3)) - 1\<rparr>)"
    by (simp add: s5_def analyze_wrapper_Computed)
  with p4 have p5: "i < length (threads s5)" "pc (threads s5 ! i) = T_Indexed"
    by (simp_all add: set_pc_def)
  from p5 have e6: "s6 = set_pc i T_Done (s5\<lparr>messages_since_analysis := 0\<rparr>)"
    by (simp add: s6_def analyze_wrapper_Indexed)
  have cl: "chat_list s3 = chat_list s"
    using f by (simp add: e3 e2 e1 set_pc_def chat_list_def)
  show "chat_list (complete_dispatch i out s) = chat_list s"
    using f unfolding c by (simp add: e6 e5 e4 e3 e2 e1 set_pc_def chat_list_def)
  show "messages_since_analysis (complete_dispatch i out s) = 0"
    unfolding c by (simp add: e6 set_pc_def)
  show "last_analyzed_index (complete_dispatch i out s) = int (length (chat_list s)) - 1"
    unfolding c using cl by (simp add: e6 e5 set_pc_def)
  show "window_size (complete_dispatch i out s) = window_size s"
    using f unfolding c by (simp add: e6 e5 e4 e3 e2 e1 set_pc_def)
  show "async_running (complete_dispatch i out s) = async_running s"
    using f unfolding c by (simp add: e6 e5 e4 e3 e2 e1 set_pc_def)
  show "store_ok (complete_dispatch i out s)"
    using f unfolding c by (simp add: e6 e5 e4 e3 e2 e1 set_pc_def store_ok_def)
  show "message_queue (complete_dispatch i out s) = message_queue s @ [(t_sender (threads s ! i), r)]"
    using f unfolding c by (simp add: e6 e5 e4 e3 e2 e1 set_pc_def)
qed

lemma complete_dispatch_failure:
  assumes "i < length (threads s)" and "pc (threads s ! i) = T_Spawned"
    and "async_run (async_running s) out = None" and "store_ok s"
  shows "chat_list (complete_dispatch i out s) = chat_list s"
    and "messages_since_analysis (complete_dispatch i out s) = messages_since_analysis s"
    and "last_analyzed_index (complete_dispatch i out s) = last_analyzed_index s"
    and "window_size (complete_dispatch i out s) = window_size s"
    and "async_running (complete_dispatch i out s) = async_running s"
    and "store_ok (complete_dispatch i out s)"
    and "message_queue (complete_dispatch i out s) = message_queue s"
proof -
  obtain w s' where g: "get_analysis_window s = (w, s')" by (cases "get_analysis_window s")
  note f = get_analysis_window_frame [OF assms(4) g]
  define s1 where "s1 = analyze_wrapper i out s"
  define s2 where "s2 = analyze_wrapper i out s1"
  define s3 where "s3 = analyze_wrapper i out s2"
  have e1: "s1 = set_pc i (T_Window w) s'"
    using assms g by (simp add: s1_def analyze_wrapper_def)
  with assms f have p1: "i < length (threads s1)" "pc (threads s1 ! i) = T_Window w"
    by (simp_all add: set_pc_def)
  from e1 assms f have a1: "async_run (async_running s1) out = None" by (simp add: set_pc_def)
  from p1 a1 have e2: "s2 = set_pc i (T_Results None) s1"
    by (simp add: s2_def analyze_wrapper_Window)
  with p1 have p2: "i < length (threads s2)" "pc (threads s2 ! i) = T_Results None"
    by (simp_all add: set_pc_def)
  from p2 have e3: "s3 = set_pc i T_Done s2"
    by (simp add: s3_def analyze_wrapper_def)
  with p2 have p3: "i < length (threads s3)" "pc (threads s3 ! i) = T_Done"
    by (simp_all add: set_pc_def)
  from p3 have d: "analyze_wrapper i out s3 = s3" by (simp add: analyze_wrapper_def)
  have c: "complete_dispatch i out s = s3"
    by (simp add: complete_dispatch_def exec_def eval_nat_numeral d
          s1_def [symmetric] s2_def [symmetric] s3_def [symmetric])
  show "chat_list (complete_dispatch i out s) = chat_list s"
    using f unfolding c by (simp add: e3 e2 e1 set_pc_def chat_list_def)
  show "messages_since_analysis (complete_dispatch i out s) = messages_since_analysis s"
    using f unfolding c by (simp add: e3 e2 e1 set_pc_def)
  show "last_analyzed_index (complete_dispatch i out s) = last_analyzed_index s"
    using f unfolding c by (simp add: e3 e2 e1 set_pc_def)
  show "window_size (complete_dispatch i out s) = window_size s"
    using f unfolding c by (simp add: e3 e2 e1 set_pc_def)
  show "async_running (complete_dispatch i out s) = async_running s"
    using f unfolding c by (simp add: e3 e2 e1 set_pc_def)
  show "store_ok (complete_dispatch i out s)"
    using f unfolding c by (simp add: e3 e2 e1 set_pc_def store_ok_def)
  show "message_queue (complete_dispatch i out s) = message_queue s"
    using f unfolding c by (simp add: e3 e2 e1 set_pc_def)
qed

lemma fired_iff:
  "fst (should_analyze (append_chat a m s)) =
     ((int (length (chat_list s)) + 1 = window_size s \<and> last_analyzed_index s = - 1)
      \<or> window_size s \<le> messages_since_analysis s + 1)"
  by (auto simp: should_analyze_def append_chat_def chat_list_def Let_def)

lemma handle_message_fields:
  "last_analyzed_index (handle_message a m s) = last_analyzed_index s"
  "window_size (handle_message a m s) = window_size s"
  "async_running (handle_message a m s) = async_running s"
  "store_ok (handle_message a m s) = store_ok s"
  "threads (handle_message a m s) =
     (if fst (should_analyze (append_chat a m s))
      then threads s @ [\<lparr>t_sender = a, pc = T_Spawned\<rparr>] else threads s)"
  by (simp_all add: handle_message_def analyze_if_needed_def should_analyze_def append_chat_def Let_def store_ok_def)

lemma int_mod_step:
  fixes n w :: int
  assumes "0 < w" and "0 \<le> n"
  shows "(n + 1) mod w = (if w \<le> n mod w + 1 then 0 else n mod w + 1)"
proof -
  have b: "0 \<le> n mod w" "n mod w < w" using assms by simp_all
  have e: "(n + 1) mod w = (n mod w + 1) mod w" by (simp add: mod_add_left_eq)
  show ?thesis
  proof (cases "w \<le> n mod w + 1")
    case True
    with b have "n mod w + 1 = w" by simp
    then show ?thesis using True e by simp
  next
    case False
    with b e show ?thesis by simp
  qed
qed

text \<open>Before the first trigger: whatever the analyzer would do.\<close>

lemma deliver_first_trigger:
  assumes "last_analyzed_index s = - 1"
    and "messages_since_analysis s = int (length (chat_list s))"
    and "k < length xs"
    and "int (length (chat_list s)) + int k + 1 \<le> window_size s"
  shows "fst (deliver xs s) ! k = (int (length (chat_list s)) + int k + 1 = window_size s)"
  using assms
proof (induction xs arbitrary: s k)
  case Nil
  then show ?case by simp
next
  case (Cons x xs)
  obtain a m out where x: "x = (a, m, out)" by (cases x)
  let ?fired = "fst (should_analyze (append_chat a m s))"
  let ?s1 = "handle_message a m s"
  let ?s2 = "if ?fired then complete_dispatch (length (threads s)) out ?s1 else ?s1"
  have d: "fst (deliver (x # xs) s) = ?fired # fst (deliver xs ?s2)"
    by (simp add: x Let_def split: prod.splits)
  show ?case
  proof (cases k)
    case 0
    with Cons.prems show ?thesis
      unfolding d by (auto simp: fired_iff)
  next
    case (Suc k')
    with Cons.prems have nf: "\<not> ?fired" by (auto simp: fired_iff)
    then have s2: "?s2 = ?s1" by simp
    have "fst (deliver xs ?s1) ! k' = (int (length (chat_list ?s1)) + int k' + 1 = window_size ?s1)"
      using Cons.prems Suc
      by (intro Cons.IH)
         (simp_all add: handle_message_fields chat_list_handle_message
            messages_since_analysis_handle_message)
    then show ?thesis
      unfolding d s2 using Suc
      by (simp add: chat_list_handle_message handle_message_fields)
  qed
qed

text \<open>Every dispatch succeeds before the next message is handled.\<close>

lemma deliver_cadence:
  assumes "0 < window_size s" and "store_ok s" and "async_running s"
    and "messages_since_analysis s = int (length (chat_list s)) mod window_size s"
    and "\<forall>x \<in> set xs. \<exists>r. snd (snd x) = Returns (Some r)"
    and "k < length xs"
  shows "fst (deliver xs s) ! k = (window_size s dvd int (length (chat_list s)) + int k + 1)"
  using assms
proof (induction xs arbitrary: s k)
  case Nil
  then show ?case by simp
next
  case (Cons x xs)
  obtain a m out where x: "x = (a, m, out)" by (cases x)
  with Cons.prems obtain r where out: "out = Returns (Some r)" by auto
  let ?w = "window_size s"
  let ?n = "int (length (chat_list s))"
  let ?fired = "fst (should_analyze (append_chat a m s))"
  let ?s1 = "handle_message a m s"
  let ?s2 = "if ?fired then complete_dispatch (length (threads s)) out ?s1 else ?s1"
  have d: "fst (deliver (x # xs) s) = ?fired # fst (deliver xs ?s2)"
    by (simp add: x Let_def split: prod.splits)
  note ms = int_mod_step [of ?w ?n]
  from Cons.prems(1) have bnd: "0 \<le> ?n mod ?w" "?n mod ?w < ?w" by simp_all
  have dv: "(?w dvd ?n + 1) = (?w \<le> ?n mod ?w + 1)"
    using ms Cons.prems(1) bnd by (auto simp: dvd_eq_mod_eq_0)
  have f: "?fired = (?w dvd ?n + 1)"
  proof -
    have "?n + 1 = ?w \<Longrightarrow> ?w dvd ?n + 1" by simp
    then show ?thesis
      unfolding fired_iff dv [symmetric] using Cons.prems(4) dv by auto
  qed
  have inv: "0 < window_size ?s2 \<and> store_ok ?s2 \<and> async_running ?s2
      \<and> window_size ?s2 = ?w \<and> chat_list ?s2 = chat_list s @ [\<lparr>sender = a, message = m\<rparr>]
      \<and> messages_since_analysis ?s2 = (?n + 1) mod ?w"
  proof (cases ?fired)
    case True
    let ?i = "length (threads s)"
    from True have t: "?i < length (threads ?s1)" "pc (threads ?s1 ! ?i) = T_Spawned"
      by (simp_all add: handle_message_fields)
    from Cons.prems have a1: "async_run (async_running ?s1) out = Some r" and a2: "store_ok ?s1"
      by (simp_all add: handle_message_fields out async_run_def)
    note cd = complete_dispatch_success [OF t a1 a2]
    from True f dv ms Cons.prems(1) have "(?n + 1) mod ?w = 0" by simp
    with True cd Cons.prems(1,3) show ?thesis
      by (simp add: out handle_message_fields chat_list_handle_message)
  next
    case False
    with f dv ms Cons.prems(1) have "(?n + 1) mod ?w = ?n mod ?w + 1" by simp
    with False Cons.prems show ?thesis
      by (simp add: handle_message_fields chat_list_handle_message
            messages_since_analysis_handle_message)
  qed
  show ?case
  proof (cases k)
    case 0
    then show ?thesis unfolding d using f by simp
  next
    case (Suc k')
    from inv have i1: "0 < window_size ?s2" and i2: "store_ok ?s2" and i3: "async_running ?s2"
      by blast+
    from inv have i4: "messages_since_analysis ?s2 = int (length (chat_list ?s2)) mod window_size ?s2"
      by (simp add: add.commute)
    from Cons.prems have i5: "\<forall>x \<in> set xs. \<exists>r. snd (snd x) = Returns (Some r)" by simp
    from Cons.prems Suc have i6: "k' < length xs" by simp
    from inv have l: "int (length (chat_list ?s2)) = ?n + 1" and w: "window_size ?s2 = ?w"
      by simp_all
    have "fst (deliver xs ?s2) ! k' = (window_size ?s2 dvd int (length (chat_list ?s2)) + int k' + 1)"
      by (rule Cons.IH [OF i1 i2 i3 i4 i5 i6])
    then have "fst (deliver xs ?s2) ! k' = (?w dvd ?n + 1 + int k' + 1)"
      unfolding l w .
    then show ?thesis
      unfolding d using Suc by (simp add: add.commute add.left_commute)
  qed
qed

lemma handle_message_frame:
  "current_chat (handle_message a m s) = current_chat s"
  "message_queue (handle_message a m s) = message_queue s"
  "w \<noteq> current_chat s \<Longrightarrow> heap (handle_message a m s) w = heap s w"
  by (simp_all add: handle_message_def analyze_if_needed_def should_analyze_def append_chat_def Let_def)

lemma exec_message_events:
  "chat_list (exec (message_events ms) s) = chat_list s @ chats_of ms
 \<and> current_chat (exec (message_events ms) s) = current_chat s
 \<and> message_queue (exec (message_events ms) s) = message_queue s
 \<and> async_running (exec (message_events ms) s) = async_running s
 \<and> (w \<noteq> current_chat s \<longrightarrow> heap (exec (message_events ms) s) w = heap s w)"
proof (induction ms arbitrary: s)
  case Nil
  then show ?case by (simp add: message_events_def chats_of_def exec_Nil)
next
  case (Cons x ms)
  obtain a m where x: "x = (a, m)" by (cases x)
  have e: "exec (message_events (x # ms)) s = exec (message_events ms) (handle_message a m s)"
    by (simp add: message_events_def x exec_Cons)
  have c: "chats_of (x # ms) = \<lparr>sender = a, message = m\<rparr> # chats_of ms"
    by (simp add: chats_of_def x)
  from Cons.IH [of "handle_message a m s"] show ?case
    unfolding e c
    by (simp add: chat_list_handle_message handle_message_frame handle_message_fields)
qed

lemma message_events_other:
  "\<forall>e \<in> set (message_events ms). \<forall>out. e \<noteq> ThreadStep i out"
  by (auto simp: message_events_def)

lemma deliver_step:
  assumes "store_ok s"
    and "last_analyzed_index s = - 1 \<longrightarrow> messages_since_analysis s = int (length (chat_list s))"
    and "fired = fst (should_analyze (append_chat a m s))"
    and "s2 = (if fired then complete_dispatch (length (threads s)) out (handle_message a m s)
               else handle_message a m s)"
  shows "store_ok s2" and "async_running s2 = async_running s"
    and "window_size s2 = window_size s"
    and "last_analyzed_index s2 = - 1 \<longrightarrow> messages_since_analysis s2 = int (length (chat_list s2))"
    and "fired \<and> async_run (async_running s) out = None \<longrightarrow>
           window_size s \<le> messages_since_analysis s2"
proof -
  let ?s1 = "handle_message a m s"
  let ?i = "length (threads s)"
  have b: "store_ok ?s1" "async_running ?s1 = async_running s" "window_size ?s1 = window_size s"
    "last_analyzed_index ?s1 = last_analyzed_index s"
    "messages_since_analysis ?s1 = messages_since_analysis s + 1"
    "chat_list ?s1 = chat_list s @ [\<lparr>sender = a, message = m\<rparr>]"
    using assms(1)
    by (simp_all add: handle_message_fields messages_since_analysis_handle_message
          chat_list_handle_message)
  have all: "store_ok s2 \<and> async_running s2 = async_running s \<and> window_size s2 = window_size s
      \<and> (last_analyzed_index s2 = - 1 \<longrightarrow> messages_since_analysis s2 = int (length (chat_list s2)))
      \<and> (fired \<and> async_run (async_running s) out = None \<longrightarrow>
           window_size s \<le> messages_since_analysis s2)"
  proof (cases fired)
    case False
    with assms(2,4) b show ?thesis by simp
  next
    case True
    with assms(3) have t: "?i < length (threads ?s1)" "pc (threads ?s1 ! ?i) = T_Spawned"
      by (simp_all add: handle_message_fields)
    from True assms(4) have s2: "s2 = complete_dispatch ?i out ?s1" by simp
    from True assms(2,3) have w: "window_size s \<le> messages_since_analysis s + 1"
      by (auto simp: fired_iff)
    show ?thesis
    proof (cases "async_run (async_running ?s1) out")
      case None
      note cd = complete_dispatch_failure [OF t None b(1)]
      from cd b assms(2) w show ?thesis unfolding s2 by simp
    next
      case (Some r)
      note cd = complete_dispatch_success [OF t Some b(1)]
      from cd b Some show ?thesis unfolding s2 by simp
    qed
  qed
  from all show "store_ok s2" and "async_running s2 = async_running s"
    and "window_size s2 = window_size s"
    and "last_analyzed_index s2 = - 1 \<longrightarrow> messages_since_analysis s2 = int (length (chat_list s2))"
    and "fired \<and> async_run (async_running s) out = None \<longrightarrow>
           window_size s \<le> messages_since_analysis s2"
    by blast+
qed

text \<open>A dispatch that fails leaves the counter where the trigger test found it.\<close>

lemma deliver_refire:
  assumes "store_ok s"
    and "last_analyzed_index s = - 1 \<longrightarrow> messages_since_analysis s = int (length (chat_list s))"
    and "Suc k < length xs"
    and "fst (deliver xs s) ! k"
    and "async_run (async_running s) (snd (snd (xs ! k))) = None"
  shows "fst (deliver xs s) ! Suc k"
  using assms
proof (induction xs arbitrary: s k)
  case Nil
  then show ?case by simp
next
  case (Cons x xs)
  obtain a m out where x: "x = (a, m, out)" by (cases x)
  let ?fired = "fst (should_analyze (append_chat a m s))"
  let ?s2 = "if ?fired then complete_dispatch (length (threads s)) out (handle_message a m s)
             else handle_message a m s"
  have d: "fst (deliver (x # xs) s) = ?fired # fst (deliver xs ?s2)"
    by (simp add: x Let_def split: prod.splits)
  note st = deliver_step [OF Cons.prems(1,2) refl refl, of a m out]
  show ?case
  proof (cases k)
    case 0
    from Cons.prems(3) 0 obtain y ys where xs: "xs = y # ys" by (cases xs) auto
    obtain a' m' out' where y: "y = (a', m', out')" by (cases y)
    from Cons.prems(4,5) 0 st(5) have w: "window_size s \<le> messages_since_analysis ?s2"
      unfolding d by (simp add: x)
    have "fst (deliver xs ?s2) ! 0 = fst (should_analyze (append_chat a' m' ?s2))"
      by (simp add: xs y Let_def split: prod.splits)
    also have "\<dots>" using w st(3) by (simp add: fired_iff)
    finally show ?thesis unfolding d using 0 by simp
  next
    case (Suc k')
    from Cons.prems Suc have p: "Suc k' < length xs" "fst (deliver xs ?s2) ! k'"
      "async_run (async_running ?s2) (snd (snd (xs ! k'))) = None"
      unfolding d using st(2) by simp_all
    from Cons.IH [OF st(1) st(4) p] show ?thesis unfolding d using Suc by simp
  qed
qed

text \<open>The rendering of the range determines the three numbers it was made from.\<close>

lemma of_char_digit_char:
  assumes "d < 10"
  shows "(of_char (digit_char d) :: nat) = 48 + d"
proof -
  from assms have "d = 0 \<or> d = 1 \<or> d = 2 \<or> d = 3 \<or> d = 4 \<or> d = 5 \<or> d = 6 \<or> d = 7
      \<or> d = 8 \<or> d = 9"
    by arith
  then show ?thesis by (auto simp: digit_char_def)
qed

lemma digit_char_inj:
  assumes "a < 10" and "b < 10" and "digit_char a = digit_char b"
  shows "a = b"
proof -
  from assms(3) have "(of_char (digit_char a) :: nat) = of_char (digit_char b)" by simp
  with assms(1,2) show ?thesis by (simp add: of_char_digit_char)
qed

lemma digit_char_plain:
  assumes "d < 10"
  shows "digit_char d \<noteq> CHR '' ''" and "digit_char d \<noteq> CHR ''-''"
proof -
  have "(of_char (digit_char d) :: nat) \<noteq> of_char (CHR '' '')"
    using assms by (simp add: of_char_digit_char)
  then show "digit_char d \<noteq> CHR '' ''" by auto
  have "(of_char (digit_char d) :: nat) \<noteq> of_char (CHR ''-'')"
    using assms by (simp add: of_char_digit_char)
  then show "digit_char d \<noteq> CHR ''-''" by auto
qed

lemma str_nat_unfold:
  "n < 10 \<Longrightarrow> str_nat n = [digit_char n]"
  "\<not> n < 10 \<Longrightarrow> str_nat n = str_nat (n div 10) @ [digit_char (n mod 10)]"
  by (subst str_nat.simps, simp)+

lemma str_nat_not_Nil: "str_nat n \<noteq> []"
  by (cases "n < 10") (simp_all add: str_nat_unfold del: str_nat.simps)

lemma str_nat_chars: "c \<in> set (str_nat n) \<Longrightarrow> c \<noteq> CHR '' '' \<and> c \<noteq> CHR ''-''"
proof (induction n rule: str_nat.induct)
  case (1 n)
  show ?case
  proof (cases "n < 10")
    case True
    with "1.prems" digit_char_plain [of n] show ?thesis
      by (simp add: str_nat_unfold del: str_nat.simps)
  next
    case False
    have "n mod 10 < 10" by simp
    with False "1.prems" "1.IH" digit_char_plain [of "n mod 10"] show ?thesis
      by (auto simp: str_nat_unfold simp del: str_nat.simps)
  qed
qed

lemma str_nat_inj: "str_nat a = str_nat b \<Longrightarrow> a = b"
proof (induction a arbitrary: b rule: str_nat.induct)
  case (1 n)
  have long: "length (str_nat k) \<noteq> 1" if "\<not> k < 10" for k
    using that str_nat_not_Nil [of "k div 10"]
    by (cases "str_nat (k div 10)") (simp_all add: str_nat_unfold del: str_nat.simps)
  show ?case
  proof (cases "n < 10")
    case True
    then have n: "str_nat n = [digit_char n]" by (rule str_nat_unfold)
    show ?thesis
    proof (cases "b < 10")
      case b: True
      with True n "1.prems" show ?thesis
        by (simp add: str_nat_unfold digit_char_inj del: str_nat.simps)
    next
      case b: False
      from n "1.prems" have "length (str_nat b) = 1" by (simp del: str_nat.simps)
      with long [OF b] show ?thesis by blast
    qed
  next
    case False
    show ?thesis
    proof (cases "b < 10")
      case True
      then have "str_nat b = [digit_char b]" by (rule str_nat_unfold)
      with "1.prems" have "length (str_nat n) = 1" by (simp del: str_nat.simps)
      with long [OF False] show ?thesis by blast
    next
      case b: False
      from False b "1.prems" have e: "str_nat (n div 10) = str_nat (b div 10)"
        and d: "digit_char (n mod 10) = digit_char (b mod 10)"
        by (simp_all add: str_nat_unfold del: str_nat.simps)
      from "1.IH" [OF False e] have q: "n div 10 = b div 10" .
      from d have r: "n mod 10 = b mod 10" by (intro digit_char_inj) simp_all
      from q r show ?thesis by (metis mult_div_mod_eq)
    qed
  qed
qed

lemma str_int_chars: "CHR '' '' \<notin> set (str_int i)"
  using str_nat_chars by (auto simp: str_int_def simp del: str_nat.simps)

lemma str_int_inj: "str_int a = str_int b \<Longrightarrow> a = b"
proof -
  assume e: "str_int a = str_int b"
  have minus: "CHR ''-'' # xs \<noteq> str_nat k" for xs k
  proof
    assume "CHR ''-'' # xs = str_nat k"
    then have "CHR ''-'' \<in> set (str_nat k)" by (metis list.set_intros(1))
    with str_nat_chars show False by blast
  qed
  show ?thesis
  proof (cases "a < 0")
    case True
    show ?thesis
    proof (cases "b < 0")
      case b: True
      with True e have "nat (- a) = nat (- b)"
        by (simp add: str_int_def str_nat_inj del: str_nat.simps)
      with True b show ?thesis by simp
    next
      case b: False
      with True e minus show ?thesis by (simp add: str_int_def del: str_nat.simps)
    qed
  next
    case False
    show ?thesis
    proof (cases "b < 0")
      case True
      with False e minus [of "str_nat (nat (- b))" "nat a"] show ?thesis
        by (simp add: str_int_def del: str_nat.simps)
    next
      case b: False
      with False e have "nat a = nat b"
        by (simp add: str_int_def str_nat_inj del: str_nat.simps)
      with False b show ?thesis by simp
    qed
  qed
qed

lemma split_at_first:
  assumes "x \<notin> set xs" and "x \<notin> set xs'" and "xs @ x # ys = xs' @ x # ys'"
  shows "xs = xs' \<and> ys = ys'"
  using assms
proof (induction xs arbitrary: xs')
  case Nil
  then show ?case by (cases xs') auto
next
  case (Cons d ds)
  then show ?case by (cases xs') auto
qed

lemma format_range_inj:
  "(format_range a b w = format_range a' b' w') = (a = a' \<and> b = b' \<and> w = w')"
proof
  assume e: "format_range a b w = format_range a' b' w'"
  note c = str_int_chars
  from e have 1: "str_int a @ CHR '' '' # (''- '' @ str_int b @ '' (Window of '' @ str_int w @ '')'')
      = str_int a' @ CHR '' '' # (''- '' @ str_int b' @ '' (Window of '' @ str_int w' @ '')'')"
    by (simp add: format_range_def)
  from split_at_first [OF c c 1] have a: "str_int a = str_int a'"
    and 2: "str_int b @ CHR '' '' # (''(Window of '' @ str_int w @ '')'')
      = str_int b' @ CHR '' '' # (''(Window of '' @ str_int w' @ '')'')"
    by simp_all
  from split_at_first [OF c c 2] have b: "str_int b = str_int b'" and w: "str_int w = str_int w'"
    by simp_all
  from a b w show "a = a' \<and> b = b' \<and> w = w'" by (simp add: str_int_inj)
qed auto

section \<open>The trigger\<close>

text \<open>
  C1. In every state \<open>should_analyze\<close> returns true if and only if the log has never been
  analyzed (\<open>last_analyzed_index = -1\<close>) and holds exactly \<open>window_size\<close> messages, or
  \<open>messages_since_analysis\<close> has reached \<open>window_size\<close>; otherwise it returns false.
\<close>

theorem should_analyze_iff:
  "fst (should_analyze s) =
     ((last_analyzed_index s = - 1 \<and> int (length (chat_list s)) = window_size s)
      \<or> messages_since_analysis s \<ge> window_size s)"
  by (auto simp: should_analyze_def Let_def)


text \<open>
  C10. \<open>should_analyze\<close> is read-only: it leaves the whole state (log, indices, counters,
  \<open>window_size\<close>, both queues) as it found it, and a second call returns the same boolean.
\<close>

theorem should_analyze_read_only:
  "snd (should_analyze s) = s \<and> should_analyze (snd (should_analyze s)) = should_analyze s"
  by (simp add: should_analyze_def Let_def)

section \<open>The analysis window\<close>

text \<open>
  C3. With a positive \<open>window_size\<close>, \<open>get_analysis_window\<close> returns exactly
  \<open>min(window_size, log length)\<close> entries, they are the last entries of the log in append
  order, and the call changes neither the controller's attributes nor any list object that
  existed before (the slice is a new object).
\<close>

theorem get_analysis_window_last_entries:
  assumes "0 < window_size s" and "store_ok s" and "get_analysis_window s = (w, s')"
  shows "length (heap s' w) = nat (min (window_size s) (int (length (chat_list s))))
       \<and> heap s' w = drop (length (chat_list s) - length (heap s' w)) (chat_list s)
       \<and> chat_list s' = chat_list s
       \<and> s'\<lparr>heap := heap s, next_addr := next_addr s\<rparr> = s
       \<and> (\<forall>a. a < next_addr s \<longrightarrow> heap s' a = heap s a)"
proof (cases "int (length (chat_list s)) \<le> window_size s")
  case True
  with assms show ?thesis
    by (auto simp: get_analysis_window_def chat_list_def min_def)
next
  case False
  with assms have w: "w = next_addr s"
    and s': "s' = s\<lparr>heap := (heap s)(next_addr s := slice_from (- window_size s) (chat_list s)),
                  next_addr := Suc (next_addr s)\<rparr>"
    by (auto simp: get_analysis_window_def alloc_def)
  from False assms(1) have sl: "slice_from (- window_size s) (chat_list s)
      = drop (length (chat_list s) - nat (window_size s)) (chat_list s)"
    by (intro slice_from_neg) auto
  from False assms(1) have len: "length (slice_from (- window_size s) (chat_list s)) = nat (window_size s)"
    unfolding sl by simp
  from assms(2) have ne: "current_chat s \<noteq> next_addr s" by (simp add: store_ok_def)
  have "heap s' w = slice_from (- window_size s) (chat_list s)" by (simp add: w s')
  with False len sl ne show ?thesis
    by (simp add: w s' chat_list_def min_def)
qed

theorem get_analysis_window_last_entries_witness:
  "get_analysis_window (exec (three_messages @ [HandleMessage ''Bob'' ''4'']) init) =
     (1, (exec (three_messages @ [HandleMessage ''Bob'' ''4'']) init)
          \<lparr>heap := (heap (exec (three_messages @ [HandleMessage ''Bob'' ''4'']) init))
             (1 := [\<lparr>sender = ''Bob'', message = ''2''\<rparr>, \<lparr>sender = ''Alice'', message = ''3''\<rparr>,
                    \<lparr>sender = ''Bob'', message = ''4''\<rparr>]),
            next_addr := 2\<rparr>)
   \<and> chat_list ((exec (three_messages @ [HandleMessage ''Bob'' ''4'']) init)
          \<lparr>heap := (heap (exec (three_messages @ [HandleMessage ''Bob'' ''4'']) init))
             (1 := [\<lparr>sender = ''Bob'', message = ''2''\<rparr>, \<lparr>sender = ''Alice'', message = ''3''\<rparr>,
                    \<lparr>sender = ''Bob'', message = ''4''\<rparr>]),
            next_addr := 2\<rparr>)
     = chat_list (exec (three_messages @ [HandleMessage ''Bob'' ''4'']) init)"
proof -
  let ?s = "exec (three_messages @ [HandleMessage ''Bob'' ''4'']) init"
  let ?s' = "?s\<lparr>heap := (heap ?s)
             (1 := [\<lparr>sender = ''Bob'', message = ''2''\<rparr>, \<lparr>sender = ''Alice'', message = ''3''\<rparr>,
                    \<lparr>sender = ''Bob'', message = ''4''\<rparr>]),
            next_addr := 2\<rparr>"
  have h1: "0 < window_size ?s" by (simp add: run_simps)
  have h2: "store_ok ?s" by (simp add: run_simps store_ok_def)
  have h3: "get_analysis_window ?s = (1, ?s')" by (simp add: run_simps)
  from get_analysis_window_last_entries [OF h1 h2 h3]
  have c: "chat_list ?s' = chat_list ?s" by blast
  show ?thesis by (rule conjI [OF h3 c])
qed

text \<open>
  C8. The claim is that the value \<open>get_analysis_window\<close> returns is a fresh snapshot that
  later appends cannot reach. With a log of exactly \<open>window_size\<close> messages (the state of
  the first trigger) the short branch returns the log's own list object: the message that
  \<open>handle_message\<close> appends afterwards shows up in the list that was returned.
\<close>

theorem get_analysis_window_shares_log:
  "fst (get_analysis_window (exec three_messages init)) = current_chat (exec three_messages init)
 \<and> window_size (exec three_messages init) = 3
 \<and> heap (snd (get_analysis_window (exec three_messages init)))
      (fst (get_analysis_window (exec three_messages init)))
    = [\<lparr>sender = ''Alice'', message = ''1''\<rparr>, \<lparr>sender = ''Bob'', message = ''2''\<rparr>,
       \<lparr>sender = ''Alice'', message = ''3''\<rparr>]
 \<and> heap (handle_message ''Bob'' ''4'' (snd (get_analysis_window (exec three_messages init))))
      (fst (get_analysis_window (exec three_messages init)))
    = [\<lparr>sender = ''Alice'', message = ''1''\<rparr>, \<lparr>sender = ''Bob'', message = ''2''\<rparr>,
       \<lparr>sender = ''Alice'', message = ''3''\<rparr>, \<lparr>sender = ''Bob'', message = ''4''\<rparr>]"
  by (simp add: run_simps)

section \<open>The alert router\<close>

text \<open>
  C7. For every popped (participant, result) and every log length \<open>L\<close> at the time of the
  pop, \<open>check_analysis\<close> reports the range \<open>start = max(1, L - window_size + 1)\<close>,
  \<open>end = L\<close> in the alert it puts on the alert queue: the text in the alert's
  \<open>message_range\<close> is the rendering of a start \<open>a\<close>, an end \<open>b\<close> and a window \<open>w\<close>
  exactly when \<open>a\<close>, \<open>b\<close> and \<open>w\<close> are these numbers.
\<close>

theorem check_analysis_message_range:
  assumes "message_queue s = (p, r) # q"
  shows "check_analysis now s =
           s\<lparr>message_queue := q,
             alert_queue := alert_queue s @
               [\<lparr>timestamp = now, child_name = p, a_sentiment = sentiment r,
                 a_explanation = explanation r, a_alert_needed = alert_needed r,
                 message_range =
                   format_range (max 1 (int (length (chat_list s)) - window_size s + 1))
                     (int (length (chat_list s))) (window_size s)\<rparr>]\<rparr>
       \<and> start_msg s = max 1 (int (length (chat_list s)) - window_size s + 1)
       \<and> end_msg s = int (length (chat_list s))
       \<and> (message_range (last (alert_queue (check_analysis now s))) = format_range a b w)
           = (a = max 1 (int (length (chat_list s)) - window_size s + 1)
              \<and> b = int (length (chat_list s)) \<and> w = window_size s)"
proof -
  have c: "check_analysis now s =
           s\<lparr>message_queue := q,
             alert_queue := alert_queue s @
               [\<lparr>timestamp = now, child_name = p, a_sentiment = sentiment r,
                 a_explanation = explanation r, a_alert_needed = alert_needed r,
                 message_range =
                   format_range (max 1 (int (length (chat_list s)) - window_size s + 1))
                     (int (length (chat_list s))) (window_size s)\<rparr>]\<rparr>"
    using assms
    by (auto simp: check_analysis_def start_msg_def end_msg_def chat_list_def Let_def max_def)
  have m: "message_range (last (alert_queue (check_analysis now s))) =
      format_range (max 1 (int (length (chat_list s)) - window_size s + 1))
        (int (length (chat_list s))) (window_size s)"
    unfolding c by simp
  have i: "(message_range (last (alert_queue (check_analysis now s))) = format_range a b w)
           = (a = max 1 (int (length (chat_list s)) - window_size s + 1)
              \<and> b = int (length (chat_list s)) \<and> w = window_size s)"
    unfolding m format_range_inj by auto
  have se: "start_msg s = max 1 (int (length (chat_list s)) - window_size s + 1)"
    "end_msg s = int (length (chat_list s))"
    by (simp_all add: start_msg_def end_msg_def max_def)
  from c se i show ?thesis by blast
qed

theorem check_analysis_message_range_witness:
  "message_range (last (alert_queue (check_analysis ''12:00:00''
      (exec (three_messages @ [HandleMessage ''Bob'' ''4''])
         (init\<lparr>message_queue := [(''Alice'', calm)]\<rparr>)))))
     = ''Messages 2 - 4 (Window of 3)''"
proof -
  let ?s = "exec (three_messages @ [HandleMessage ''Bob'' ''4''])
         (init\<lparr>message_queue := [(''Alice'', calm)]\<rparr>)"
  have h: "message_queue ?s = (''Alice'', calm) # []" by (simp add: run_simps)
  have l: "int (length (chat_list ?s)) = 4" "window_size ?s = 3"
    by (simp_all add: run_simps)
  have f: "format_range 2 4 3 = ''Messages 2 - 4 (Window of 3)''"
    by (simp add: format_range_def str_int_def digit_char_def)
  from check_analysis_message_range [OF h, of "''12:00:00''" 2 4 3]
  have "(message_range (last (alert_queue (check_analysis ''12:00:00'' ?s))) = format_range 2 4 3)
      = (2 = max 1 (int (length (chat_list ?s)) - window_size ?s + 1)
         \<and> 4 = int (length (chat_list ?s)) \<and> 3 = window_size ?s)"
    by (elim conjE)
  then have "message_range (last (alert_queue (check_analysis ''12:00:00'' ?s))) = format_range 2 4 3"
    unfolding l by simp
  then show ?thesis unfolding f .
qed

section \<open>Failed dispatches\<close>



section \<open>Reset\<close>

text \<open>
  C6, as stated, fails: \<open>reset_chat\<close> does not stop the analysis threads, and
  \<open>analyze_wrapper\<close> never looks whether a reset happened. A dispatch whose result arrived
  before the reset puts it on the emptied handoff queue afterwards, and the next polling
  tick turns it into an alert for the range 1 - 0. A dispatch that has evaluated
  \<open>len(self.current_chat) - 1\<close> to 2 before the reset stores the 2 afterwards, into a state
  whose log is empty.
\<close>

theorem reset_chat_stale_dispatch_counterexample:
  "message_queue (exec (three_messages @ [ThreadStep 0 Raises, ThreadStep 0 (Returns (Some calm)),
       ResetChat, ThreadStep 0 Raises]) init) = [(''Alice'', calm)]
 \<and> map message_range (alert_queue (exec (three_messages @ [ThreadStep 0 Raises,
       ThreadStep 0 (Returns (Some calm)), ResetChat, ThreadStep 0 Raises,
       CheckAnalysis ''12:00:00'']) init)) = [''Messages 1 - 0 (Window of 3)'']
 \<and> last_analyzed_index (exec (three_messages @ [ThreadStep 0 Raises,
       ThreadStep 0 (Returns (Some calm)), ThreadStep 0 Raises, ThreadStep 0 Raises,
       ResetChat, ThreadStep 0 Raises]) init) = 2
 \<and> chat_list (exec (three_messages @ [ThreadStep 0 Raises,
       ThreadStep 0 (Returns (Some calm)), ThreadStep 0 Raises, ThreadStep 0 Raises,
       ResetChat, ThreadStep 0 Raises]) init) = []"
  by (simp add: run_simps format_range_def str_int_def digit_char_def)

text \<open>
  C6, amended. \<open>reset_chat\<close>, executed with no analysis thread running meanwhile, leaves
  an empty log, \<open>last_analyzed_index = -1\<close>, \<open>messages_since_analysis = 0\<close> and both queues
  empty. It leaves the analysis threads as they are, and what a thread does after the
  reset depends on where it stands: one that holds a result puts it on the emptied handoff
  queue; one that has already evaluated \<open>len(self.current_chat) - 1\<close> to \<open>v\<close> stores that
  \<open>v\<close> into \<open>last_analyzed_index\<close>, the log being empty; one that has put its result but
  not yet evaluated the length sets \<open>last_analyzed_index\<close> to the number of messages handled
  since the reset minus 1; and one that has stored the index sets
  \<open>messages_since_analysis\<close> to 0, however many messages were handled since the reset.
\<close>

theorem reset_chat_clears:
  "chat_list (reset_chat s) = []
 \<and> last_analyzed_index (reset_chat s) = - 1
 \<and> messages_since_analysis (reset_chat s) = 0
 \<and> message_queue (reset_chat s) = []
 \<and> alert_queue (reset_chat s) = []
 \<and> threads (reset_chat s) = threads s
 \<and> (i < length (threads s) \<and> pc (threads s ! i) = T_Results (Some r) \<longrightarrow>
      message_queue (analyze_wrapper i out (reset_chat s)) = [(t_sender (threads s ! i), r)])
 \<and> (i < length (threads s) \<and> pc (threads s ! i) = T_Computed v \<longrightarrow>
      last_analyzed_index (analyze_wrapper i out (reset_chat s)) = v
    \<and> chat_list (analyze_wrapper i out (reset_chat s)) = [])
 \<and> (i < length (threads s) \<and> pc (threads s ! i) = T_Pushed \<longrightarrow>
      last_analyzed_index
        (exec (ResetChat # message_events ms @ [ThreadStep i out, ThreadStep i out]) s)
        = int (length ms) - 1)
 \<and> (i < length (threads s) \<and> pc (threads s ! i) = T_Indexed \<longrightarrow>
      messages_since_analysis (exec (ResetChat # message_events ms @ [ThreadStep i out]) s) = 0)"
proof -
  let ?r = "reset_chat s"
  let ?m = "exec (message_events ms) ?r"
  have q: "message_queue (analyze_wrapper i out ?r) = [(t_sender (threads s ! i), r)]"
    if "i < length (threads s)" and "pc (threads s ! i) = T_Results (Some r)"
    using that
    by (simp add: analyze_wrapper_Results_Some threads_reset_chat reset_chat_fields set_pc_def)
  have c: "last_analyzed_index (analyze_wrapper i out ?r) = v
      \<and> chat_list (analyze_wrapper i out ?r) = []"
    if "i < length (threads s)" and "pc (threads s ! i) = T_Computed v"
  proof -
    from that have "analyze_wrapper i out ?r = set_pc i T_Indexed (?r\<lparr>last_analyzed_index := v\<rparr>)"
      by (simp add: analyze_wrapper_Computed threads_reset_chat)
    moreover have "chat_list (set_pc i T_Indexed (?r\<lparr>last_analyzed_index := v\<rparr>)) = chat_list ?r"
      by (simp add: set_pc_def chat_list_def)
    ultimately show ?thesis by (simp add: reset_chat_fields set_pc_def)
  qed
  have kept: "i < length (threads ?m) \<and> threads ?m ! i = threads s ! i"
    if "i < length (threads s)"
  proof -
    from that have "i < length (threads ?r)" by (simp add: threads_reset_chat)
    from exec_keeps_thread [OF this message_events_other, of ms] show ?thesis
      by (simp add: threads_reset_chat)
  qed
  have len: "int (length (chat_list ?m)) = int (length ms)"
    using exec_message_events [of ms ?r] by (simp add: reset_chat_fields chats_of_def)
  have l: "last_analyzed_index
        (exec (ResetChat # message_events ms @ [ThreadStep i out, ThreadStep i out]) s)
        = int (length ms) - 1"
    if "i < length (threads s)" and "pc (threads s ! i) = T_Pushed"
  proof -
    let ?v = "int (length (chat_list ?m)) - 1"
    from kept [OF that(1)] that(2) have p: "i < length (threads ?m)" "pc (threads ?m ! i) = T_Pushed"
      by simp_all
    then have e1: "analyze_wrapper i out ?m = set_pc i (T_Computed ?v) ?m"
      by (rule analyze_wrapper_Pushed)
    with p have p1: "i < length (threads (analyze_wrapper i out ?m))"
      "pc (threads (analyze_wrapper i out ?m) ! i) = T_Computed ?v"
      by (simp_all add: set_pc_def)
    have "last_analyzed_index (analyze_wrapper i out (analyze_wrapper i out ?m)) = ?v"
      by (simp add: analyze_wrapper_Computed [OF p1] set_pc_def)
    with len show ?thesis by (simp add: exec_Cons exec_append exec_Nil)
  qed
  have z: "messages_since_analysis (exec (ResetChat # message_events ms @ [ThreadStep i out]) s) = 0"
    if "i < length (threads s)" and "pc (threads s ! i) = T_Indexed"
  proof -
    from kept [OF that(1)] that(2) have "i < length (threads ?m)" "pc (threads ?m ! i) = T_Indexed"
      by simp_all
    then have "messages_since_analysis (analyze_wrapper i out ?m) = 0"
      by (simp add: messages_since_analysis_analyze_wrapper)
    then show ?thesis by (simp add: exec_Cons exec_append exec_Nil)
  qed
  from q c l z show ?thesis by (simp add: reset_chat_fields threads_reset_chat)
qed

theorem reset_chat_clears_witness:
  "last_analyzed_index (analyze_wrapper 0 Raises (reset_chat
      (exec (three_messages @ [ThreadStep 0 Raises, ThreadStep 0 (Returns (Some calm)),
         ThreadStep 0 Raises, ThreadStep 0 Raises]) init))) = 2
 \<and> chat_list (analyze_wrapper 0 Raises (reset_chat
      (exec (three_messages @ [ThreadStep 0 Raises, ThreadStep 0 (Returns (Some calm)),
         ThreadStep 0 Raises, ThreadStep 0 Raises]) init))) = []"
proof -
  let ?s = "exec (three_messages @ [ThreadStep 0 Raises, ThreadStep 0 (Returns (Some calm)),
         ThreadStep 0 Raises, ThreadStep 0 Raises]) init"
  have h: "0 < length (threads ?s) \<and> pc (threads ?s ! 0) = T_Computed 2"
    by (simp add: run_simps)
  from reset_chat_clears [of ?s 0 calm Raises 2 "[]"] h show ?thesis by blast
qed

section \<open>The counter of new messages\<close>




section \<open>The cadence of the trigger\<close>

text \<open>
  C2, as stated, fails: the cadence depends on the outcome of the dispatches. The third
  message fires the trigger; when that dispatch fails, \<open>messages_since_analysis\<close> stays at
  3 and the fourth message fires the trigger again, one message later and not
  \<open>window_size\<close> messages later.
\<close>

theorem trigger_cadence_counterexample:
  "fst (should_analyze (append_chat ''Alice'' ''3''
      (exec [HandleMessage ''Alice'' ''1'', HandleMessage ''Bob'' ''2''] init)))
 \<and> fst (should_analyze (append_chat ''Bob'' ''4''
      (exec (three_messages @ [ThreadStep 0 Raises, ThreadStep 0 TimesOut, ThreadStep 0 Raises])
         init)))
 \<and> window_size (exec (three_messages @ [ThreadStep 0 Raises, ThreadStep 0 TimesOut,
      ThreadStep 0 Raises]) init) = 3"
  by (simp add: run_simps)

text \<open>
  C2, amended. Take a run from a state with an empty log that was never analyzed (the
  initial state is one), in which no analysis thread runs while a message is handled and
  every dispatch runs to its end before the next message is handled. Then
  \<open>should_analyze\<close> is false for each of the first \<open>window_size - 1\<close> messages and true for
  the \<open>window_size\<close>-th, whatever the analyzer does; when every dispatch succeeds, it is
  true exactly for the messages whose number is a multiple of \<open>window_size\<close>; and when it
  is true for a message and the dispatch of that message fails, it is true again for the
  very next message.
\<close>

theorem trigger_cadence:
  assumes "chat_list s = []" and "last_analyzed_index s = - 1"
    and "messages_since_analysis s = 0" and "0 < window_size s" and "store_ok s"
    and "k < length xs"
  shows "(int k + 1 \<le> window_size s \<longrightarrow> fst (deliver xs s) ! k = (int k + 1 = window_size s))
   \<and> (async_running s \<and> (\<forall>x \<in> set xs. \<exists>r. snd (snd x) = Returns (Some r)) \<longrightarrow>
        fst (deliver xs s) ! k = (window_size s dvd int k + 1))
   \<and> (Suc k < length xs \<and> fst (deliver xs s) ! k
        \<and> async_run (async_running s) (snd (snd (xs ! k))) = None \<longrightarrow>
        fst (deliver xs s) ! Suc k)"
proof (intro conjI impI)
  assume "int k + 1 \<le> window_size s"
  with assms deliver_first_trigger [of s k xs]
  show "fst (deliver xs s) ! k = (int k + 1 = window_size s)" by simp
next
  assume "async_running s \<and> (\<forall>x \<in> set xs. \<exists>r. snd (snd x) = Returns (Some r))"
  with assms deliver_cadence [of s xs k]
  show "fst (deliver xs s) ! k = (window_size s dvd int k + 1)" by simp
next
  assume a: "Suc k < length xs \<and> fst (deliver xs s) ! k
        \<and> async_run (async_running s) (snd (snd (xs ! k))) = None"
  from assms(1,2,3) have i: "last_analyzed_index s = - 1 \<longrightarrow>
      messages_since_analysis s = int (length (chat_list s))"
    by simp
  from a deliver_refire [OF assms(5) i, of k xs] show "fst (deliver xs s) ! Suc k" by blast
qed

theorem trigger_cadence_witness:
  "fst (deliver six_messages init) ! 1 = False
 \<and> fst (deliver six_messages init) ! 2 = True
 \<and> fst (deliver six_messages init) ! 4 = False
 \<and> fst (deliver six_messages init) ! 5 = True
 \<and> fst (deliver failing_messages init) ! 2 = True
 \<and> fst (deliver failing_messages init) ! 3 = True"
proof -
  have h: "chat_list init = []" "last_analyzed_index init = - 1"
    "messages_since_analysis init = 0" "0 < window_size init" "store_ok init"
    by (simp_all add: init_def chat_list_def store_ok_def)
  have w: "window_size init = 3" by (simp add: init_def)
  have ok: "async_running init
      \<and> (\<forall>x \<in> set six_messages. \<exists>r. snd (snd x) = Returns (Some r))"
    by (simp add: init_def six_messages_def)
  have l: "1 < length six_messages" "2 < length six_messages" "4 < length six_messages"
    "5 < length six_messages" "2 < length failing_messages"
    by (simp_all add: six_messages_def failing_messages_def)
  from trigger_cadence [OF h l(1)] w have a: "fst (deliver six_messages init) ! 1 = False" by simp
  from trigger_cadence [OF h l(2)] w have b: "fst (deliver six_messages init) ! 2 = True" by simp
  from trigger_cadence [OF h l(3)] ok w have c: "fst (deliver six_messages init) ! 4 = False" by simp
  from trigger_cadence [OF h l(4)] ok w have d: "fst (deliver six_messages init) ! 5 = True" by simp
  from trigger_cadence [OF h l(5)] w have e: "fst (deliver failing_messages init) ! 2 = True" by simp
  have f: "Suc 2 < length failing_messages
      \<and> async_run (async_running init) (snd (snd (failing_messages ! 2))) = None"
    by (simp add: failing_messages_def async_run_def)
  from trigger_cadence [OF h l(5)] e f have g: "fst (deliver failing_messages init) ! Suc 2"
    by blast
  from a b c d e g show ?thesis by (simp add: eval_nat_numeral)
qed

section \<open>Successful dispatches\<close>

text \<open>
  C9. On a successful dispatch the result is put on the handoff queue first, with
  \<open>last_analyzed_index\<close> still unchanged, and \<open>last_analyzed_index\<close> is then set from the
  log length at that moment: with three messages at the trigger and a fourth handled while
  the analyzer call is in flight it becomes 3, so the fourth message counts as analyzed.
  The claim adds that such a message is never part of the analyzed window. Here it is: the
  window of the first trigger is the log's own list object (address 0, the short branch of
  \<open>get_analysis_window\<close>), and the fourth message is appended to that very object while
  thread 0 waits for the analyzer.
\<close>

theorem in_flight_message_reaches_window:
  "pc (threads (exec (three_messages @ [ThreadStep 0 Raises]) init) ! 0) = T_Window 0
 \<and> current_chat (exec (three_messages @ [ThreadStep 0 Raises]) init) = 0
 \<and> heap (exec (three_messages @ [ThreadStep 0 Raises]) init) 0
     = [\<lparr>sender = ''Alice'', message = ''1''\<rparr>, \<lparr>sender = ''Bob'', message = ''2''\<rparr>,
        \<lparr>sender = ''Alice'', message = ''3''\<rparr>]
 \<and> pc (threads (exec (three_messages @ [ThreadStep 0 Raises, HandleMessage ''Bob'' ''4'']) init) ! 0)
     = T_Window 0
 \<and> heap (exec (three_messages @ [ThreadStep 0 Raises, HandleMessage ''Bob'' ''4'']) init) 0
     = [\<lparr>sender = ''Alice'', message = ''1''\<rparr>, \<lparr>sender = ''Bob'', message = ''2''\<rparr>,
        \<lparr>sender = ''Alice'', message = ''3''\<rparr>, \<lparr>sender = ''Bob'', message = ''4''\<rparr>]
 \<and> message_queue (exec (three_messages @ [ThreadStep 0 Raises, HandleMessage ''Bob'' ''4'',
       ThreadStep 0 (Returns (Some calm)), ThreadStep 0 Raises]) init) = [(''Alice'', calm)]
 \<and> last_analyzed_index (exec (three_messages @ [ThreadStep 0 Raises, HandleMessage ''Bob'' ''4'',
       ThreadStep 0 (Returns (Some calm)), ThreadStep 0 Raises]) init) = - 1
 \<and> last_analyzed_index (exec (three_messages @ [ThreadStep 0 Raises, HandleMessage ''Bob'' ''4'',
       ThreadStep 0 (Returns (Some calm)), ThreadStep 0 Raises, ThreadStep 0 Raises,
       ThreadStep 0 Raises]) init) = 3"
  by (simp add: run_simps)

end
